theory Spec2Isabelle
  imports Main "HOL-Library.Multiset" "HOL-Library.Product_Lexorder"
begin

section \<open>Subset-sum ordering: the partitioner, the digit mapper and the verifier\<close>

text \<open>
  The development embeds the three functions of \<^verbatim>\<open>subset_sum_ordering.py\<close>.
  Python integers are \<^typ>\<open>int\<close>; values produced by \<^verbatim>\<open>range\<close> and
  \<^verbatim>\<open>enumerate\<close> (list positions, bitmasks, digits, the loop counter) are never
  negative and are \<^typ>\<open>nat\<close>. An \<^verbatim>\<open>IndexError\<close> raised by a list access is the
  left summand of the result type.
\<close>

subsection \<open>The partitioner\<close>

text \<open>
  The \<^verbatim>\<open>for num in sorted_nums\<close> loop of \<^verbatim>\<open>subset_sum_ordering\<close>; the state is
  \<^verbatim>\<open>(groups, current_group, prefix_sum)\<close>.
\<close>

fun partition_scan ::
  "int list \<Rightarrow> int list list \<Rightarrow> int list \<Rightarrow> int \<Rightarrow> int list list \<times> int list \<times> int" where
  "partition_scan [] groups current_group prefix_sum = (groups, current_group, prefix_sum)"
| "partition_scan (num # rest) groups current_group prefix_sum =
     (if current_group \<noteq> [] \<and> prefix_sum < num
      then partition_scan rest (groups @ [current_group]) ([] @ [num]) (prefix_sum + num)
      else partition_scan rest groups (current_group @ [num]) (prefix_sum + num))"

definition subset_sum_ordering :: "int list \<Rightarrow> int list list \<times> int list" where
  "subset_sum_ordering nums =
     (if nums = [] then ([], [])
      else (case partition_scan (sort nums) [] [] 0 of
              (groups, current_group, prefix_sum) \<Rightarrow>
                (let groups' = groups @ [current_group];
                     radices = map (\<lambda>g. 2 ^ length g) groups'
                 in (groups', radices))))"

subsection \<open>The digit mapper\<close>

text \<open>
  \<^verbatim>\<open>sum(group[i] for i in range(n) if mask >> i & 1)\<close>: the shift binds tighter than
  the conjunction, and the test is on the truth value of the resulting integer.
\<close>

definition mask_sum :: "int list \<Rightarrow> nat \<Rightarrow> int" where
  "mask_sum grp msk =
     sum_list (map (\<lambda>i. grp ! i)
       (filter (\<lambda>i. and (drop_bit i msk) 1 \<noteq> 0) [0..<length grp]))"

text \<open>
  Python sorts the \<^verbatim>\<open>(sum, mask)\<close> tuples by the natural tuple order, which is the
  lexicographic order on pairs.
\<close>

definition build_digit_map :: "int list \<Rightarrow> (int \<times> nat) list" where
  "build_digit_map grp =
     (let n = length grp
      in sort (map (\<lambda>msk. (mask_sum grp msk, msk)) [0..<2 ^ n]))"

subsection \<open>The verifier\<close>

datatype py_error = IndexError

record diagnostic =
  at_index :: nat
  digits :: "nat list"
  sum_val :: int
  prev_sum :: int

text \<open>A list access at a position that is not negative.\<close>

definition index_py :: "'a list \<Rightarrow> nat \<Rightarrow> py_error + 'a" where
  "index_py xs i = (if i < length xs then Inr (xs ! i) else Inl IndexError)"

text \<open>\<^verbatim>\<open>range(r)\<close> is empty when \<open>r\<close> is not positive.\<close>

definition range_py :: "int \<Rightarrow> nat list" where
  "range_py r = [0..<nat r]"

text \<open>
  \<^verbatim>\<open>itertools.product\<close> of a list of iterables: the tuples in lexicographic order,
  the rightmost position advancing on every step.
\<close>

fun product_py :: "'a list list \<Rightarrow> 'a list list" where
  "product_py [] = [[]]"
| "product_py (xs # xss) = concat (map (\<lambda>x. map (\<lambda>t. x # t) (product_py xss)) xs)"

text \<open>\<^verbatim>\<open>(range(radices[j]) for j in js)\<close>, unpacked before the loop starts.\<close>

fun digit_ranges :: "int list \<Rightarrow> nat list \<Rightarrow> py_error + nat list list" where
  "digit_ranges radices [] = Inr []"
| "digit_ranges radices (j # js) =
     (case index_py radices j of
        Inl e \<Rightarrow> Inl e
      | Inr r \<Rightarrow> (case digit_ranges radices js of
                    Inl e \<Rightarrow> Inl e
                  | Inr rs \<Rightarrow> Inr (range_py r # rs)))"

text \<open>\<^verbatim>\<open>sum(digit_maps[g][digits[g]][0] for g in gs)\<close>.\<close>

fun total_sum :: "(int \<times> nat) list list \<Rightarrow> nat list \<Rightarrow> nat list \<Rightarrow> py_error + int" where
  "total_sum digit_maps ds [] = Inr 0"
| "total_sum digit_maps ds (g # gs) =
     (case index_py digit_maps g of
        Inl e \<Rightarrow> Inl e
      | Inr dm \<Rightarrow>
         (case index_py ds g of
            Inl e \<Rightarrow> Inl e
          | Inr d \<Rightarrow>
             (case index_py dm d of
                Inl e \<Rightarrow> Inl e
              | Inr entry \<Rightarrow>
                 (case total_sum digit_maps ds gs of
                    Inl e \<Rightarrow> Inl e
                  | Inr s \<Rightarrow> Inr (fst entry + s)))))"

text \<open>
  The enumeration loop of \<^verbatim>\<open>verify\<close>; \<open>i\<close> is the counter of \<^verbatim>\<open>enumerate\<close> and
  \<open>prev\<close> is \<^verbatim>\<open>prev_sum\<close>, \<open>None\<close> before the first tuple.
\<close>

fun verify_loop ::
  "(int \<times> nat) list list \<Rightarrow> nat \<Rightarrow> nat \<Rightarrow> int option \<Rightarrow> nat list list
     \<Rightarrow> py_error + (bool \<times> diagnostic option)" where
  "verify_loop digit_maps k i prev [] = Inr (True, None)"
| "verify_loop digit_maps k i prev (digits_msb_first # rest) =
     (let ds = rev digits_msb_first
      in case total_sum digit_maps ds [0..<k] of
           Inl e \<Rightarrow> Inl e
         | Inr tot \<Rightarrow>
            (case prev of
               None \<Rightarrow> verify_loop digit_maps k (Suc i) (Some tot) rest
             | Some p \<Rightarrow>
                (if tot < p
                 then Inr (False, Some \<lparr>at_index = i, digits = ds, sum_val = tot,
                                         prev_sum = p\<rparr>)
                 else verify_loop digit_maps k (Suc i) (Some tot) rest)))"

definition verify :: "int list list \<Rightarrow> int list \<Rightarrow> py_error + (bool \<times> diagnostic option)" where
  "verify part radices =
     (let k = length part
      in if k = 0 then Inr (True, None)
         else (let digit_maps = map build_digit_map part
               in case digit_ranges radices (rev [0..<k]) of
                    Inl e \<Rightarrow> Inl e
                  | Inr ranges \<Rightarrow> verify_loop digit_maps k 0 None (product_py ranges)))"

subsection \<open>Specification predicates\<close>

text \<open>
  Group domination: every group after the first is non-empty, and the sum of all elements
  of the groups before it is strictly below its first element.
\<close>

definition dominated :: "int list list \<Rightarrow> bool" where
  "dominated G \<longleftrightarrow>
     (\<forall>i. 1 \<le> i \<and> i < length G \<longrightarrow> G ! i \<noteq> [] \<and> sum_list (concat (take i G)) < hd (G ! i))"

text \<open>
  The digit tuple at position \<open>i\<close> of a mixed-radix count over the radices \<open>rs\<close>: the
  digit of group 0 is the least significant one and advances on every step, the digit of
  the last group is the most significant one and advances last.
\<close>

fun mixed_radix_digits :: "nat list \<Rightarrow> nat \<Rightarrow> nat list" where
  "mixed_radix_digits [] i = []"
| "mixed_radix_digits (r # rs) i = (i mod r) # mixed_radix_digits rs (i div r)"

text \<open>
  The number a digit tuple denotes: digit \<open>g\<close> has the product of the radices before it as
  its weight.
\<close>

fun mixed_radix_value :: "nat list \<Rightarrow> nat list \<Rightarrow> nat" where
  "mixed_radix_value (r # rs) (d # ds) = d + r * mixed_radix_value rs ds"
| "mixed_radix_value rs ds = 0"

text \<open>The total subset sum of a digit tuple: the sum contributions its digits select.\<close>

definition tuple_sum :: "(int \<times> nat) list list \<Rightarrow> nat list \<Rightarrow> int" where
  "tuple_sum digit_maps ds = sum_list (map (\<lambda>g. fst (digit_maps ! g ! (ds ! g))) [0..<length ds])"

text \<open>
  For a call \<^verbatim>\<open>verify(partition, radices)\<close> with \<open>k\<close> groups: the digit tuple at a
  position of the enumeration, the number of tuples, and the subset sum at a position.
\<close>

definition digit_tuple_at :: "int list \<Rightarrow> nat \<Rightarrow> nat \<Rightarrow> nat list" where
  "digit_tuple_at radices k i = mixed_radix_digits (map nat (take k radices)) i"

definition tuple_count :: "int list \<Rightarrow> nat \<Rightarrow> nat" where
  "tuple_count radices k = prod_list (map nat (take k radices))"

definition subset_sum_at :: "int list list \<Rightarrow> int list \<Rightarrow> nat \<Rightarrow> int" where
  "subset_sum_at part radices i =
     tuple_sum (map build_digit_map part) (digit_tuple_at radices (length part) i)"

section \<open>Concrete runs\<close>

text \<open>
  Claim C9: on the empty input the partitioner returns the empty partition with the empty
  radix vector, and the verifier accepts an empty partition with empty radices.
\<close>

theorem empty_input_boundary:
  "subset_sum_ordering [] = ([], []) \<and> verify [] [] = Inr (True, None)"
  by code_simp

text \<open>
  Claim C2, as stated: on \<open>[1, 20, 5, 6, 2]\<close> the partitioner returns
  \<open>[[1, 2, 5, 6], [20]]\<close> with radices \<open>[16, 2]\<close> and the verifier accepts that result.
  The code does not do this: the running prefix sum 1 is already below the second sorted
  element 2, so the first group is closed after one element.
\<close>

theorem motivating_example_claimed_result_refuted:
  "\<not> (subset_sum_ordering [1, 20, 5, 6, 2] = ([[1, 2, 5, 6], [20]], [16, 2])
      \<and> verify (fst (subset_sum_ordering [1, 20, 5, 6, 2]))
                (snd (subset_sum_ordering [1, 20, 5, 6, 2])) = Inr (True, None))"
  by code_simp

text \<open>
  Claim C2, amended: on \<open>[1, 20, 5, 6, 2]\<close> the partitioner returns the partition
  \<open>[[1], [2], [5, 6], [20]]\<close> with radices \<open>[2, 2, 4, 2]\<close>.
\<close>

theorem motivating_example_partition:
  "subset_sum_ordering [1, 20, 5, 6, 2] = ([[1], [2], [5, 6], [20]], [2, 2, 4, 2])"
  by code_simp

text \<open>
  Claim C3, as stated: on \<open>[1, 1, 2, 4]\<close> the partitioner returns \<open>[[1, 1, 2], [4]]\<close>
  with radices \<open>[8, 2]\<close> and the verifier accepts that result. The code keeps 4 in the
  first group as well, because the prefix sum 1 + 1 + 2 = 4 is not strictly below 4.
\<close>

theorem multiset_example_claimed_result_refuted:
  "\<not> (subset_sum_ordering [1, 1, 2, 4] = ([[1, 1, 2], [4]], [8, 2])
      \<and> verify (fst (subset_sum_ordering [1, 1, 2, 4]))
                (snd (subset_sum_ordering [1, 1, 2, 4])) = Inr (True, None))"
  by code_simp

text \<open>
  Claim C3, amended: on \<open>[1, 1, 2, 4]\<close> the partitioner returns the single group
  \<open>[[1, 1, 2, 4]]\<close> with radices \<open>[16]\<close> (neither 2 nor 4 is strictly above the prefix
  sum before it), and the verifier accepts that result.
\<close>

theorem multiset_example_partition:
  "subset_sum_ordering [1, 1, 2, 4] = ([[1, 1, 2, 4]], [16])
   \<and> verify (fst (subset_sum_ordering [1, 1, 2, 4]))
             (snd (subset_sum_ordering [1, 1, 2, 4])) = Inr (True, None)"
  by code_simp

text \<open>
  Claim C1: for every sequence of positive integers, the verifier accepts the result of the
  partitioner. The code does not achieve this. On its own first example
  \<open>[1, 20, 5, 6, 2]\<close> the enumeration reaches the digit tuple \<open>(0, 0, 2, 0)\<close> with subset
  sum 6 right after the tuple \<open>(1, 1, 1, 0)\<close> with subset sum 8, and the verifier reports
  the violation at position 8.
\<close>

theorem verify_rejects_motivating_example:
  "verify (fst (subset_sum_ordering [1, 20, 5, 6, 2]))
          (snd (subset_sum_ordering [1, 20, 5, 6, 2]))
     = Inr (False, Some \<lparr>at_index = 8, digits = [0, 0, 2, 0], sum_val = 6, prev_sum = 8\<rparr>)"
  by code_simp

text \<open>
  A three-element input fails in the same way: the two one-element subsets of the group
  \<open>[2, 2]\<close> tie, so the enumeration passes from the first of them together with the
  element 1 (sum 3) to the second of them alone (sum 2).
\<close>

lemma verify_rejects_tied_group:
  "subset_sum_ordering [1, 2, 2] = ([[1], [2, 2]], [2, 4])
   \<and> verify [[1], [2, 2]] [2, 4]
       = Inr (False, Some \<lparr>at_index = 4, digits = [0, 2], sum_val = 2, prev_sum = 3\<rparr>)"
  by code_simp

section \<open>The partitioner\<close>

lemma partition_scan_concat:
  "partition_scan xs gs cur ps = (gs', cur', ps') \<Longrightarrow>
     concat (gs' @ [cur']) = concat (gs @ [cur]) @ xs"
  by (induction xs arbitrary: gs cur ps) (auto split: if_splits)

lemma subset_sum_ordering_concat: "concat (fst (subset_sum_ordering nums)) = sort nums"
proof (cases "nums = []")
  case True
  then show ?thesis by (simp add: subset_sum_ordering_def)
next
  case False
  obtain gs cur ps where r: "partition_scan (sort nums) [] [] 0 = (gs, cur, ps)"
    by (cases "partition_scan (sort nums) [] [] 0")
  from partition_scan_concat [OF r] have "concat (gs @ [cur]) = sort nums" by simp
  with False r show ?thesis by (simp add: subset_sum_ordering_def Let_def)
qed

lemma subset_sum_ordering_radices:
  "snd (subset_sum_ordering nums) = map (\<lambda>g. 2 ^ length g) (fst (subset_sum_ordering nums))"
  by (cases "partition_scan (sort nums) [] [] 0")
     (simp add: subset_sum_ordering_def Let_def)

lemma dominated_snoc:
  "dominated (G @ [g]) \<longleftrightarrow>
     dominated G \<and> (G \<noteq> [] \<longrightarrow> g \<noteq> [] \<and> sum_list (concat G) < hd g)"
proof
  assume d: "dominated (G @ [g])"
  have "dominated G"
    unfolding dominated_def
  proof (intro allI impI)
    fix i assume i: "1 \<le> i \<and> i < length G"
    with d have "(G @ [g]) ! i \<noteq> [] \<and> sum_list (concat (take i (G @ [g]))) < hd ((G @ [g]) ! i)"
      unfolding dominated_def by simp
    with i show "G ! i \<noteq> [] \<and> sum_list (concat (take i G)) < hd (G ! i)"
      by (simp add: nth_append)
  qed
  moreover have "G \<noteq> [] \<longrightarrow> g \<noteq> [] \<and> sum_list (concat G) < hd g"
  proof
    assume "G \<noteq> []"
    then have "1 \<le> length G \<and> length G < length (G @ [g])" by (cases G) simp_all
    with d have "(G @ [g]) ! length G \<noteq> [] \<and>
        sum_list (concat (take (length G) (G @ [g]))) < hd ((G @ [g]) ! length G)"
      unfolding dominated_def by blast
    then show "g \<noteq> [] \<and> sum_list (concat G) < hd g" by simp
  qed
  ultimately show "dominated G \<and> (G \<noteq> [] \<longrightarrow> g \<noteq> [] \<and> sum_list (concat G) < hd g)" ..
next
  assume a: "dominated G \<and> (G \<noteq> [] \<longrightarrow> g \<noteq> [] \<and> sum_list (concat G) < hd g)"
  show "dominated (G @ [g])"
    unfolding dominated_def
  proof (intro allI impI)
    fix i assume i: "1 \<le> i \<and> i < length (G @ [g])"
    show "(G @ [g]) ! i \<noteq> [] \<and> sum_list (concat (take i (G @ [g]))) < hd ((G @ [g]) ! i)"
    proof (cases "i < length G")
      case True
      with a i have "G ! i \<noteq> [] \<and> sum_list (concat (take i G)) < hd (G ! i)"
        unfolding dominated_def by simp
      with True show ?thesis by (simp add: nth_append)
    next
      case False
      with i have e: "i = length G" by simp
      with i have "G \<noteq> []" by auto
      with a e show ?thesis by simp
    qed
  qed
qed

lemma dominated_single: "dominated [g]"
  by (simp add: dominated_def)

lemma partition_scan_dominated:
  "partition_scan xs gs cur ps = (gs', cur', ps') \<Longrightarrow>
   ps = sum_list (concat (gs @ [cur])) \<Longrightarrow> (cur = [] \<longrightarrow> gs = []) \<Longrightarrow>
   dominated (gs @ [cur]) \<Longrightarrow> dominated (gs' @ [cur'])"
proof (induction xs arbitrary: gs cur ps)
  case Nil
  then show ?case by simp
next
  case (Cons num rest)
  show ?case
  proof (cases "cur \<noteq> [] \<and> ps < num")
    case True
    with Cons.prems(1) have r: "partition_scan rest (gs @ [cur]) [num] (ps + num) = (gs', cur', ps')"
      by simp
    have d: "dominated ((gs @ [cur]) @ [[num]])"
      using Cons.prems(2,4) True by (subst dominated_snoc) simp
    show ?thesis
      by (rule Cons.IH [OF r _ _ d]) (simp_all add: Cons.prems(2))
  next
    case False
    with Cons.prems(1) have r: "partition_scan rest gs (cur @ [num]) (ps + num) = (gs', cur', ps')"
      by auto
    have d: "dominated (gs @ [cur @ [num]])"
      using Cons.prems(3,4) by (auto simp: dominated_snoc)
    show ?thesis
      by (rule Cons.IH [OF r _ _ d]) (simp_all add: Cons.prems(2))
  qed
qed

lemma subset_sum_ordering_dominated: "dominated (fst (subset_sum_ordering nums))"
proof (cases "nums = []")
  case True
  then show ?thesis by (simp add: subset_sum_ordering_def dominated_def)
next
  case False
  obtain gs cur ps where r: "partition_scan (sort nums) [] [] 0 = (gs, cur, ps)"
    by (cases "partition_scan (sort nums) [] [] 0")
  have "dominated (gs @ [cur])"
    by (rule partition_scan_dominated [OF r]) (simp_all add: dominated_single)
  with False r show ?thesis by (simp add: subset_sum_ordering_def Let_def)
qed

lemma sorted_concat_nth:
  "sorted (concat G) \<Longrightarrow> i < length G \<Longrightarrow> sorted (G ! i)"
proof (induction G arbitrary: i)
  case Nil
  then show ?case by simp
next
  case (Cons g G)
  then show ?case by (cases i) (auto simp: sorted_append)
qed

lemma Min_sorted_hd: "sorted (g :: int list) \<Longrightarrow> g \<noteq> [] \<Longrightarrow> Min (set g) = hd g"
  by (cases g) (auto intro: Min_eqI)

text \<open>
  Claim C5: the groups of the returned partition, concatenated in order, are the input
  sorted ascending, so they hold every input element exactly once; and the radix of each
  group is two to the power of its length.
\<close>

theorem partition_flattens_to_sorted_input:
  "concat (fst (subset_sum_ordering nums)) = sort nums
   \<and> sorted (concat (fst (subset_sum_ordering nums)))
   \<and> mset (concat (fst (subset_sum_ordering nums))) = mset nums
   \<and> snd (subset_sum_ordering nums) = map (\<lambda>g. 2 ^ length g) (fst (subset_sum_ordering nums))"
  using subset_sum_ordering_radices [of nums]
  by (simp add: subset_sum_ordering_concat)

text \<open>
  Claim C4: in the returned partition, for every group index \<open>i \<ge> 1\<close>, the sum of all
  elements of the groups \<open>0 .. i - 1\<close> is strictly less than the minimum element of group
  \<open>i\<close> (which is not empty).
\<close>

theorem group_domination:
  "\<forall>i. 1 \<le> i \<and> i < length (fst (subset_sum_ordering nums)) \<longrightarrow>
     fst (subset_sum_ordering nums) ! i \<noteq> [] \<and>
     sum_list (concat (take i (fst (subset_sum_ordering nums))))
       < Min (set (fst (subset_sum_ordering nums) ! i))"
proof (intro allI impI)
  fix i
  let ?G = "fst (subset_sum_ordering nums)"
  assume i: "1 \<le> i \<and> i < length ?G"
  have "sorted (concat ?G)" by (simp add: subset_sum_ordering_concat)
  with i have s: "sorted (?G ! i)" by (simp add: sorted_concat_nth)
  from i subset_sum_ordering_dominated [of nums]
  have d: "?G ! i \<noteq> [] \<and> sum_list (concat (take i ?G)) < hd (?G ! i)"
    unfolding dominated_def by blast
  with s show "?G ! i \<noteq> [] \<and> sum_list (concat (take i ?G)) < Min (set (?G ! i))"
    by (simp add: Min_sorted_hd)
qed

theorem group_domination_witness:
  "1 \<le> (2::nat) \<and> 2 < length (fst (subset_sum_ordering [1, 20, 5, 6, 2]))
   \<and> fst (subset_sum_ordering [1, 20, 5, 6, 2]) ! 2 \<noteq> []
   \<and> sum_list (concat (take 2 (fst (subset_sum_ordering [1, 20, 5, 6, 2]))))
       < Min (set (fst (subset_sum_ordering [1, 20, 5, 6, 2]) ! 2))"
proof -
  have h: "1 \<le> (2::nat) \<and> 2 < length (fst (subset_sum_ordering [1, 20, 5, 6, 2]))"
    by code_simp
  with group_domination [of "[1, 20, 5, 6, 2]"] show ?thesis by blast
qed

text \<open>
  Claim C8: the partitioner returns the same partition and the same radices on an input
  and on any permutation of it (and, being a function of its input, on repeated calls).
\<close>

theorem partition_permutation_invariant:
  "mset nums' = mset nums \<Longrightarrow> subset_sum_ordering nums' = subset_sum_ordering nums"
proof -
  assume m: "mset nums' = mset nums"
  then have s: "sort nums' = sort nums"
    by (intro properties_for_sort) simp_all
  from m have "nums' = [] \<longleftrightarrow> nums = []" by (metis mset_zero_iff)
  with s show ?thesis by (simp add: subset_sum_ordering_def)
qed

theorem partition_permutation_invariant_witness:
  "mset [20, 2, 6, 5, 1] = mset [1, 20, 5, 6, 2 :: int]
   \<and> subset_sum_ordering [20, 2, 6, 5, 1] = subset_sum_ordering [1, 20, 5, 6, 2]"
proof -
  have h: "mset [20, 2, 6, 5, 1] = mset [1, 20, 5, 6, 2 :: int]" by simp
  from h partition_permutation_invariant [OF h] show ?thesis by blast
qed

section \<open>The digit mapper\<close>

lemma bit_test_iff: "and (drop_bit i (m::nat)) 1 \<noteq> 0 \<longleftrightarrow> bit m i"
  by (simp add: and_one_eq bit_iff_odd_drop_bit mod_2_eq_odd)

lemma mask_sum_eq_sum:
  "mask_sum grp m = (\<Sum>i | i < length grp \<and> bit m i. grp ! i)"
proof -
  have "mask_sum grp m = sum (\<lambda>i. grp ! i) (set (filter (\<lambda>i. bit m i) [0..<length grp]))"
    unfolding mask_sum_def bit_test_iff
    by (rule sum_list_distinct_conv_sum_set) simp
  also have "set (filter (\<lambda>i. bit m i) [0..<length grp]) = {i. i < length grp \<and> bit m i}"
    by auto
  finally show ?thesis .
qed

lemma mask_sum_zero: "mask_sum grp 0 = 0"
  by (simp add: mask_sum_def)

lemma mask_sum_nonneg: "\<forall>x\<in>set grp. 0 \<le> x \<Longrightarrow> 0 \<le> mask_sum grp m"
  unfolding mask_sum_def by (rule sum_list_nonneg) auto

lemma length_build_digit_map: "length (build_digit_map grp) = 2 ^ length grp"
  by (simp add: build_digit_map_def)

lemma set_build_digit_map:
  "set (build_digit_map grp) = (\<lambda>m. (mask_sum grp m, m)) ` {0..<2 ^ length grp}"
  by (simp add: build_digit_map_def)

lemma masks_build_digit_map:
  "mset (map snd (build_digit_map grp)) = mset [0..<2 ^ length grp]"
proof -
  have "mset (map snd (build_digit_map grp))
      = image_mset snd (mset (map (\<lambda>m. (mask_sum grp m, m)) [0..<2 ^ length grp]))"
    by (simp add: build_digit_map_def)
  also have "\<dots> = mset (map (snd \<circ> (\<lambda>m. (mask_sum grp m, m))) [0..<2 ^ length grp])"
    by (simp only: mset_map [symmetric] map_map)
  also have "snd \<circ> (\<lambda>m. (mask_sum grp m, m)) = (\<lambda>m. m)" by (rule ext) simp
  finally show ?thesis by simp
qed

lemma distinct_build_digit_map: "distinct (build_digit_map grp)"
proof -
  have "distinct (map snd (build_digit_map grp))"
    using masks_build_digit_map [of grp] by (metis distinct_upt mset_eq_imp_distinct_iff)
  then show ?thesis by (simp add: distinct_map)
qed

lemma strict_sorted_build_digit_map: "sorted_wrt (<) (build_digit_map grp)"
proof -
  have "sorted (build_digit_map grp)" by (simp add: build_digit_map_def)
  with distinct_build_digit_map [of grp] show ?thesis
    by (simp add: strict_sorted_iff)
qed

lemma build_digit_map_entry:
  assumes "d < 2 ^ length grp"
  shows "snd (build_digit_map grp ! d) < 2 ^ length grp"
    and "fst (build_digit_map grp ! d) = mask_sum grp (snd (build_digit_map grp ! d))"
proof -
  from assms have "build_digit_map grp ! d \<in> set (build_digit_map grp)"
    by (simp add: length_build_digit_map)
  then obtain m where "m < 2 ^ length grp" "build_digit_map grp ! d = (mask_sum grp m, m)"
    unfolding set_build_digit_map by auto
  then show "snd (build_digit_map grp ! d) < 2 ^ length grp"
    and "fst (build_digit_map grp ! d) = mask_sum grp (snd (build_digit_map grp ! d))"
    by simp_all
qed

lemma build_digit_map_first:
  assumes "\<forall>x\<in>set grp. 0 \<le> x"
  shows "build_digit_map grp ! 0 = (0, 0)"
proof -
  let ?dm = "build_digit_map grp"
  have "(0, 0) \<in> set ?dm"
    unfolding set_build_digit_map using mask_sum_zero [of grp] by force
  then obtain j where j: "j < length ?dm" "?dm ! j = (0, 0)"
    by (auto simp: in_set_conv_nth)
  show ?thesis
  proof (cases j)
    case 0
    with j show ?thesis by simp
  next
    case (Suc j')
    with j have "?dm ! 0 < ?dm ! j"
      by (intro sorted_wrt_nth_less [OF strict_sorted_build_digit_map]) simp_all
    with j have lt: "?dm ! 0 < (0, 0)" by simp
    have "0 < length ?dm" by (simp add: length_build_digit_map)
    then have "fst (?dm ! 0) = mask_sum grp (snd (?dm ! 0))"
      using build_digit_map_entry(2) [of 0 grp] by (simp add: length_build_digit_map)
    with assms have "0 \<le> fst (?dm ! 0)" by (simp add: mask_sum_nonneg)
    with lt show ?thesis by (simp add: less_prod_def)
  qed
qed

text \<open>
  Claim C6: for a group of \<open>n\<close> positive integers, \<open>build_digit_map\<close> returns exactly
  \<open>2 ^ n\<close> entries; every entry is a pair of a bitmask below \<open>2 ^ n\<close> and the sum of the
  group values at the bit positions set in that bitmask, each bitmask occurring exactly
  once; the entries ascend by sum, and entries of equal sum ascend by bitmask; and entry 0
  is \<open>(0, 0)\<close>, the empty subset.
\<close>

theorem build_digit_map_spec:
  assumes "\<forall>x\<in>set grp. 0 < x"
  shows "length (build_digit_map grp) = 2 ^ length grp
   \<and> (\<forall>d. d < 2 ^ length grp \<longrightarrow>
         snd (build_digit_map grp ! d) < 2 ^ length grp
       \<and> fst (build_digit_map grp ! d)
           = (\<Sum>i | i < length grp \<and> bit (snd (build_digit_map grp ! d)) i. grp ! i))
   \<and> mset (map snd (build_digit_map grp)) = mset [0..<2 ^ length grp]
   \<and> (\<forall>d e. d < e \<and> e < 2 ^ length grp \<longrightarrow>
         fst (build_digit_map grp ! d) < fst (build_digit_map grp ! e)
       \<or> (fst (build_digit_map grp ! d) = fst (build_digit_map grp ! e)
          \<and> snd (build_digit_map grp ! d) < snd (build_digit_map grp ! e)))
   \<and> build_digit_map grp ! 0 = (0, 0)"
proof (intro conjI allI impI)
  show "length (build_digit_map grp) = 2 ^ length grp" by (rule length_build_digit_map)
next
  fix d :: nat assume "d < 2 ^ length grp"
  then show "snd (build_digit_map grp ! d) < 2 ^ length grp" by (rule build_digit_map_entry)
next
  fix d :: nat assume "d < 2 ^ length grp"
  then show "fst (build_digit_map grp ! d)
           = (\<Sum>i | i < length grp \<and> bit (snd (build_digit_map grp ! d)) i. grp ! i)"
    by (simp add: build_digit_map_entry(2) mask_sum_eq_sum)
next
  show "mset (map snd (build_digit_map grp)) = mset [0..<2 ^ length grp]"
    by (rule masks_build_digit_map)
next
  fix d e :: nat assume "d < e \<and> e < 2 ^ length grp"
  then have "build_digit_map grp ! d < build_digit_map grp ! e"
    by (intro sorted_wrt_nth_less [OF strict_sorted_build_digit_map])
       (simp_all add: length_build_digit_map)
  then show "fst (build_digit_map grp ! d) < fst (build_digit_map grp ! e)
       \<or> (fst (build_digit_map grp ! d) = fst (build_digit_map grp ! e)
          \<and> snd (build_digit_map grp ! d) < snd (build_digit_map grp ! e))"
    by (cases "build_digit_map grp ! d"; cases "build_digit_map grp ! e") (auto simp: less_prod_def)
next
  from assms have "\<forall>x\<in>set grp. 0 \<le> x" by auto
  then show "build_digit_map grp ! 0 = (0, 0)" by (rule build_digit_map_first)
qed

theorem build_digit_map_spec_witness:
  "(0::int) < 1 \<and> (0::int) < 2
   \<and> length (build_digit_map [1, 1, 2]) = 2 ^ length [1, 1, 2 :: int]
   \<and> mset (map snd (build_digit_map [1, 1, 2])) = mset [0..<2 ^ length [1, 1, 2 :: int]]
   \<and> build_digit_map [1, 1, 2] ! 0 = (0, 0)"
proof -
  have h: "\<forall>x\<in>set [1, 1, 2 :: int]. 0 < x" by simp
  from build_digit_map_spec [OF h] show ?thesis by simp
qed

section \<open>The verifier\<close>

subsection \<open>The enumeration order\<close>

lemma digit_ranges_in_bounds:
  "\<forall>j\<in>set js. j < length radices \<Longrightarrow>
     digit_ranges radices js = Inr (map (\<lambda>j. range_py (radices ! j)) js)"
  by (induction js) (simp_all add: index_py_def)

lemma ranges_msb_first:
  assumes "k \<le> length radices"
  shows "map (\<lambda>j. range_py (radices ! j)) (rev [0..<k])
       = rev (map (\<lambda>r. [0..<r]) (map nat (take k radices)))"
proof -
  have "map (\<lambda>j. radices ! j) [0..<k] = take k radices"
    using assms by (simp add: list_eq_iff_nth_eq)
  then have "map (\<lambda>r. [0..<r]) (map nat (take k radices)) = map (\<lambda>j. range_py (radices ! j)) [0..<k]"
    by (simp add: range_py_def list_eq_iff_nth_eq)
  then show ?thesis by (simp add: rev_map)
qed

lemma concat_concat_map: "concat (concat xss) = concat (map concat xss)"
  by (induction xss) simp_all

lemma product_py_snoc:
  "product_py (xss @ [ys]) = concat (map (\<lambda>t. map (\<lambda>y. t @ [y]) ys) (product_py xss))"
proof (induction xss)
  case Nil
  show ?case by (induction ys) simp_all
next
  case (Cons xs xss)
  show ?case
    by (simp add: Cons.IH map_concat o_def concat_concat_map)
qed

lemma map_upt_blocks:
  "map f [0..<n * P] = concat (map (\<lambda>j. map (\<lambda>y. f (j * n + y)) [0..<n]) [0..<P])"
proof (induction P)
  case 0
  show ?case by simp
next
  case (Suc P)
  have e: "n * Suc P = n * P + n" by simp
  have "[0..<n * P + n] = [0..<n * P] @ [n * P..<n * P + n]"
    by (rule upt_add_eq_append) simp
  moreover have "[n * P..<n * P + n] = map (\<lambda>y. P * n + y) [0..<n]"
    using map_add_upt [of "n * P" n] by (simp add: ac_simps)
  ultimately have "map f [0..<n * Suc P]
      = map f [0..<n * P] @ map (\<lambda>y. f (P * n + y)) [0..<n]"
    by (simp only: e map_append map_map o_def)
  then show ?case by (simp only: Suc.IH upt_Suc_append [OF le0] map_append concat_append concat.simps list.map append_Nil2)
qed

lemma enumeration_is_mixed_radix:
  "map rev (product_py (rev (map (\<lambda>r. [0..<r]) rs)))
     = map (mixed_radix_digits rs) [0..<prod_list rs]"
proof (induction rs)
  case Nil
  show ?case by simp
next
  case (Cons r rs)
  let ?X = "product_py (rev (map (\<lambda>r. [0..<r]) rs))"
  have "map rev (product_py (rev (map (\<lambda>r. [0..<r]) (r # rs))))
      = concat (map (\<lambda>t. map (\<lambda>y. y # t) [0..<r]) (map rev ?X))"
    by (simp add: product_py_snoc map_concat o_def)
  also have "\<dots> = concat (map (\<lambda>j. map (\<lambda>y. y # mixed_radix_digits rs j) [0..<r]) [0..<prod_list rs])"
    by (simp add: Cons.IH o_def)
  also have "\<dots> = concat (map (\<lambda>j. map (\<lambda>y. mixed_radix_digits (r # rs) (j * r + y)) [0..<r])
                              [0..<prod_list rs])"
    by (intro arg_cong [where f = concat] map_cong refl) simp
  also have "\<dots> = map (mixed_radix_digits (r # rs)) [0..<r * prod_list rs]"
    by (rule map_upt_blocks [symmetric])
  finally show ?case by simp
qed

lemma length_mixed_radix_digits: "length (mixed_radix_digits rs i) = length rs"
  by (induction rs arbitrary: i) simp_all

lemma mixed_radix_digits_bound:
  "i < prod_list rs \<Longrightarrow> g < length rs \<Longrightarrow> mixed_radix_digits rs i ! g < rs ! g"
proof (induction rs arbitrary: i g)
  case Nil
  then show ?case by simp
next
  case (Cons r rs)
  from Cons.prems(1) have r: "0 < r" by (cases r) simp_all
  show ?case
  proof (cases g)
    case 0
    with r show ?thesis by simp
  next
    case (Suc g')
    from Cons.prems(1) r have "i div r < prod_list rs"
      by (simp add: less_mult_imp_div_less mult.commute)
    with Cons.IH [of "i div r" g'] Cons.prems(2) Suc show ?thesis by simp
  qed
qed

lemma mixed_radix_value_digits:
  "i < prod_list rs \<Longrightarrow> mixed_radix_value rs (mixed_radix_digits rs i) = i"
proof (induction rs arbitrary: i)
  case Nil
  then show ?case by simp
next
  case (Cons r rs)
  from Cons.prems have r: "0 < r" by (cases r) simp_all
  with Cons.prems have "i div r < prod_list rs"
    by (simp add: less_mult_imp_div_less mult.commute)
  with Cons.IH [of "i div r"] show ?case by simp
qed

lemma total_sum_in_bounds:
  "\<forall>g\<in>set gs. g < length dms \<and> g < length ds \<and> ds ! g < length (dms ! g) \<Longrightarrow>
     total_sum dms ds gs = Inr (sum_list (map (\<lambda>g. fst (dms ! g ! (ds ! g))) gs))"
  by (induction gs) (simp_all add: index_py_def)

lemma verify_loop_no_error:
  "\<forall>t\<in>set ts. \<exists>s. total_sum dms (rev t) [0..<k] = Inr s \<Longrightarrow>
     \<exists>ok diag. verify_loop dms k i prev ts = Inr (ok, diag)"
proof (induction ts arbitrary: i prev)
  case Nil
  show ?case by auto
next
  case (Cons t ts)
  from Cons.prems obtain s where s: "total_sum dms (rev t) [0..<k] = Inr s" by auto
  from Cons.prems have "\<forall>t\<in>set ts. \<exists>s. total_sum dms (rev t) [0..<k] = Inr s" by simp
  from Cons.IH [OF this] s show ?case by (auto simp: Let_def split: option.splits)
qed

lemma verify_loop_pass:
  assumes tot: "\<forall>j<length all. total_sum dms (rev (all ! j)) [0..<k] = Inr (S j)"
      and mono: "\<forall>j. 0 < j \<and> j < length all \<longrightarrow> S (j - 1) \<le> S j"
  shows "i \<le> length all \<Longrightarrow> prev = (if i = 0 then None else Some (S (i - 1))) \<Longrightarrow>
           verify_loop dms k i prev (drop i all) = Inr (True, None)"
proof (induction "length all - i" arbitrary: i prev)
  case 0
  then show ?case by simp
next
  case (Suc n)
  then have i: "i < length all" by simp
  then have d: "drop i all = all ! i # drop (Suc i) all" by (simp add: Cons_nth_drop_Suc)
  from tot i have t: "total_sum dms (rev (all ! i)) [0..<k] = Inr (S i)" by simp
  have nv: "prev = None \<or> (\<exists>p. prev = Some p \<and> \<not> S i < p)"
  proof (cases "i = 0")
    case True
    with Suc.prems show ?thesis by simp
  next
    case False
    with mono i have "S (i - 1) \<le> S i" by simp
    with False Suc.prems show ?thesis by simp
  qed
  have "verify_loop dms k (Suc i) (Some (S i)) (drop (Suc i) all) = Inr (True, None)"
    using Suc.hyps(2) i by (intro Suc.hyps(1)) simp_all
  with d t nv show ?case by (auto simp: Let_def)
qed

lemma verify_loop_fail:
  assumes tot: "\<forall>j<length all. total_sum dms (rev (all ! j)) [0..<k] = Inr (S j)"
      and n: "0 < n" "n < length all" "S n < S (n - 1)"
      and mono: "\<forall>j. 0 < j \<and> j < n \<longrightarrow> S (j - 1) \<le> S j"
  shows "i \<le> n \<Longrightarrow> prev = (if i = 0 then None else Some (S (i - 1))) \<Longrightarrow>
           verify_loop dms k i prev (drop i all)
             = Inr (False, Some \<lparr>at_index = n, digits = rev (all ! n), sum_val = S n,
                                   prev_sum = S (n - 1)\<rparr>)"
proof (induction "n - i" arbitrary: i prev)
  case 0
  then have e: "i = n" by simp
  with n have d: "drop i all = all ! n # drop (Suc n) all" by (simp add: Cons_nth_drop_Suc)
  from tot n have t: "total_sum dms (rev (all ! n)) [0..<k] = Inr (S n)" by simp
  from e n "0.prems" have "prev = Some (S (n - 1))" by simp
  with d t n e show ?case by (simp add: Let_def)
next
  case (Suc m)
  then have i: "i < n" by simp
  with n have il: "i < length all" by simp
  then have d: "drop i all = all ! i # drop (Suc i) all" by (simp add: Cons_nth_drop_Suc)
  from tot il have t: "total_sum dms (rev (all ! i)) [0..<k] = Inr (S i)" by simp
  have nv: "prev = None \<or> (\<exists>p. prev = Some p \<and> \<not> S i < p)"
  proof (cases "i = 0")
    case True
    with Suc.prems show ?thesis by simp
  next
    case False
    with mono i have "S (i - 1) \<le> S i" by simp
    with False Suc.prems show ?thesis by simp
  qed
  have "verify_loop dms k (Suc i) (Some (S i)) (drop (Suc i) all)
             = Inr (False, Some \<lparr>at_index = n, digits = rev (all ! n), sum_val = S n,
                                   prev_sum = S (n - 1)\<rparr>)"
    using Suc.hyps(2) i by (intro Suc.hyps(1)) simp_all
  with d t nv show ?case by (auto simp: Let_def)
qed


lemma verify_enumeration:
  assumes "length part \<le> length radices"
  shows "digit_ranges radices (rev [0..<length part])
           = Inr (rev (map (\<lambda>r. [0..<r]) (map nat (take (length part) radices))))"
    and "map rev (product_py (rev (map (\<lambda>r. [0..<r]) (map nat (take (length part) radices)))))
           = map (digit_tuple_at radices (length part)) [0..<tuple_count radices (length part)]"
proof -
  have "\<forall>j\<in>set (rev [0..<length part]). j < length radices" using assms by simp
  from digit_ranges_in_bounds [OF this] ranges_msb_first [OF assms]
  show "digit_ranges radices (rev [0..<length part])
           = Inr (rev (map (\<lambda>r. [0..<r]) (map nat (take (length part) radices))))"
    by simp
  have "digit_tuple_at radices (length part)
      = mixed_radix_digits (map nat (take (length part) radices))"
    by (rule ext) (simp add: digit_tuple_at_def)
  then show "map rev (product_py (rev (map (\<lambda>r. [0..<r]) (map nat (take (length part) radices)))))
           = map (digit_tuple_at radices (length part)) [0..<tuple_count radices (length part)]"
    by (simp only: enumeration_is_mixed_radix tuple_count_def)
qed

lemma digit_tuple_in_bounds:
  assumes "length part \<le> length radices"
      and "\<forall>g<length part. radices ! g \<le> 2 ^ length (part ! g)"
      and "i < tuple_count radices (length part)"
      and "g < length part"
  shows "digit_tuple_at radices (length part) i ! g < length (build_digit_map (part ! g))"
proof -
  let ?rs = "map nat (take (length part) radices)"
  from assms(1,4) have g: "g < length ?rs" by simp
  from assms(3) have "i < prod_list ?rs" by (simp add: tuple_count_def)
  from mixed_radix_digits_bound [OF this g]
  have "digit_tuple_at radices (length part) i ! g < nat (radices ! g)"
    using assms(1,4) by (simp add: digit_tuple_at_def)
  moreover from assms(2,4) have "radices ! g \<le> 2 ^ length (part ! g)" by simp
  then have "nat (radices ! g) \<le> 2 ^ length (part ! g)" by (simp add: nat_le_iff)
  ultimately have "digit_tuple_at radices (length part) i ! g < 2 ^ length (part ! g)"
    by (rule less_le_trans)
  then show ?thesis by (simp only: length_build_digit_map)
qed

lemma digit_tuple_total:
  assumes "length part \<le> length radices"
      and "\<forall>g<length part. radices ! g \<le> 2 ^ length (part ! g)"
      and "i < tuple_count radices (length part)"
  shows "total_sum (map build_digit_map part) (digit_tuple_at radices (length part) i)
           [0..<length part] = Inr (subset_sum_at part radices i)"
proof -
  have l: "length (digit_tuple_at radices (length part) i) = length part"
    using assms(1) by (simp add: digit_tuple_at_def length_mixed_radix_digits)
  have "\<forall>g\<in>set [0..<length part]. g < length (map build_digit_map part)
          \<and> g < length (digit_tuple_at radices (length part) i)
          \<and> digit_tuple_at radices (length part) i ! g < length (map build_digit_map part ! g)"
    using digit_tuple_in_bounds [OF assms] l by simp
  from total_sum_in_bounds [OF this] l show ?thesis
    by (simp add: subset_sum_at_def tuple_sum_def)
qed

lemma verify_product_totals:
  assumes "length part \<le> length radices"
      and "\<forall>g<length part. radices ! g \<le> 2 ^ length (part ! g)"
      and "j < length (product_py (rev (map (\<lambda>r. [0..<r]) (map nat (take (length part) radices)))))"
  shows "rev (product_py (rev (map (\<lambda>r. [0..<r]) (map nat (take (length part) radices)))) ! j)
           = digit_tuple_at radices (length part) j"
    and "total_sum (map build_digit_map part)
           (rev (product_py (rev (map (\<lambda>r. [0..<r]) (map nat (take (length part) radices)))) ! j))
           [0..<length part] = Inr (subset_sum_at part radices j)"
    and "j < tuple_count radices (length part)"
proof -
  let ?all = "product_py (rev (map (\<lambda>r. [0..<r]) (map nat (take (length part) radices))))"
  have e: "map rev ?all
      = map (digit_tuple_at radices (length part)) [0..<tuple_count radices (length part)]"
    by (rule verify_enumeration(2) [OF assms(1)])
  then have "length (map rev ?all)
      = length (map (digit_tuple_at radices (length part)) [0..<tuple_count radices (length part)])"
    by (rule arg_cong)
  then have len: "length ?all = tuple_count radices (length part)" by simp
  with assms(3) show j: "j < tuple_count radices (length part)" by simp
  from e have "map rev ?all ! j
      = map (digit_tuple_at radices (length part)) [0..<tuple_count radices (length part)] ! j"
    by (rule arg_cong)
  with assms(3) j show r: "rev (?all ! j) = digit_tuple_at radices (length part) j" by simp
  from digit_tuple_total [OF assms(1,2) j] r
  show "total_sum (map build_digit_map part) (rev (?all ! j)) [0..<length part]
          = Inr (subset_sum_at part radices j)"
    by simp
qed

lemma verify_unfold:
  assumes "length part \<le> length radices" and "part \<noteq> []"
  shows "verify part radices
       = verify_loop (map build_digit_map part) (length part) 0 None
           (drop 0 (product_py (rev (map (\<lambda>r. [0..<r]) (map nat (take (length part) radices))))))"
  using assms(2) verify_enumeration(1) [OF assms(1)] by (simp add: verify_def Let_def)

lemma length_product_tuples:
  assumes "length part \<le> length radices"
  shows "length (product_py (rev (map (\<lambda>r. [0..<r]) (map nat (take (length part) radices)))))
       = tuple_count radices (length part)"
proof -
  let ?all = "product_py (rev (map (\<lambda>r. [0..<r]) (map nat (take (length part) radices))))"
  have "length (map rev ?all)
      = length (map (digit_tuple_at radices (length part)) [0..<tuple_count radices (length part)])"
    by (rule arg_cong [OF verify_enumeration(2) [OF assms]])
  then show ?thesis by simp
qed

text \<open>Outside these bounds a digit can exceed its digit map, and the lookup raises.\<close>

lemma verify_oversized_radix: "verify [[1]] [3] = Inl IndexError"
  by code_simp

text \<open>
  Claim C7: for radices that stay within the sizes of the digit maps, \<open>verify\<close> enumerates
  the digit tuples in mixed-radix order, the tuple at position \<open>i\<close> being the mixed-radix
  representation of \<open>i\<close> with group 0 as the least significant digit and the last group as
  the most significant one. If no tuple has a subset sum strictly below that of the tuple
  right before it, \<open>verify\<close> returns \<open>(True, None)\<close>; otherwise it returns \<open>False\<close> with
  the diagnostic of the first such position: the position, its digit tuple, its subset sum
  and the previous subset sum.
\<close>

theorem verify_reports_first_violation:
  assumes "length part \<le> length radices"
      and "\<forall>g<length part. radices ! g \<le> 2 ^ length (part ! g)"
  shows "(\<exists>ranges. digit_ranges radices (rev [0..<length part]) = Inr ranges
            \<and> map rev (product_py ranges)
                = map (digit_tuple_at radices (length part))
                    [0..<tuple_count radices (length part)])
   \<and> (\<forall>i. i < tuple_count radices (length part) \<longrightarrow>
          mixed_radix_value (map nat (take (length part) radices))
            (digit_tuple_at radices (length part) i) = i)
   \<and> (\<forall>i g. i < tuple_count radices (length part) \<and> g < length part \<longrightarrow>
          digit_tuple_at radices (length part) i ! g < nat (radices ! g))
   \<and> ((\<forall>i. 0 < i \<and> i < tuple_count radices (length part) \<longrightarrow>
            subset_sum_at part radices (i - 1) \<le> subset_sum_at part radices i) \<longrightarrow>
        verify part radices = Inr (True, None))
   \<and> (\<forall>i. 0 < i \<and> i < tuple_count radices (length part)
          \<and> subset_sum_at part radices i < subset_sum_at part radices (i - 1)
          \<and> (\<forall>j. 0 < j \<and> j < i \<longrightarrow>
                 subset_sum_at part radices (j - 1) \<le> subset_sum_at part radices j) \<longrightarrow>
        verify part radices
          = Inr (False, Some \<lparr>at_index = i, digits = digit_tuple_at radices (length part) i,
                               sum_val = subset_sum_at part radices i,
                               prev_sum = subset_sum_at part radices (i - 1)\<rparr>))"
proof (intro conjI allI impI)
  show "\<exists>ranges. digit_ranges radices (rev [0..<length part]) = Inr ranges
            \<and> map rev (product_py ranges)
                = map (digit_tuple_at radices (length part))
                    [0..<tuple_count radices (length part)]"
    using verify_enumeration [OF assms(1)] by blast
next
  fix i assume "i < tuple_count radices (length part)"
  then show "mixed_radix_value (map nat (take (length part) radices))
            (digit_tuple_at radices (length part) i) = i"
    by (simp add: tuple_count_def digit_tuple_at_def mixed_radix_value_digits)
next
  fix i g assume "i < tuple_count radices (length part) \<and> g < length part"
  with assms(1) have "i < prod_list (map nat (take (length part) radices))"
      and "g < length (map nat (take (length part) radices))"
    by (simp_all add: tuple_count_def)
  from mixed_radix_digits_bound [OF this] assms(1) \<open>i < tuple_count radices (length part) \<and> g < length part\<close>
  show "digit_tuple_at radices (length part) i ! g < nat (radices ! g)"
    by (simp add: digit_tuple_at_def)
next
  let ?all = "product_py (rev (map (\<lambda>r. [0..<r]) (map nat (take (length part) radices))))"
  assume mono: "\<forall>i. 0 < i \<and> i < tuple_count radices (length part) \<longrightarrow>
            subset_sum_at part radices (i - 1) \<le> subset_sum_at part radices i"
  show "verify part radices = Inr (True, None)"
  proof (cases "part = []")
    case True
    then show ?thesis by (simp add: verify_def)
  next
    case False
    have tot: "\<forall>j<length ?all. total_sum (map build_digit_map part) (rev (?all ! j))
                 [0..<length part] = Inr (subset_sum_at part radices j)"
      using verify_product_totals(2) [OF assms] by blast
    have m: "\<forall>j. 0 < j \<and> j < length ?all \<longrightarrow>
                subset_sum_at part radices (j - 1) \<le> subset_sum_at part radices j"
      using mono by (simp only: length_product_tuples [OF assms(1)])
    have "verify_loop (map build_digit_map part) (length part) 0 None (drop 0 ?all)
            = Inr (True, None)"
      by (rule verify_loop_pass [OF tot m]) simp_all
    then show ?thesis by (simp only: verify_unfold [OF assms(1) False])
  qed
next
  let ?all = "product_py (rev (map (\<lambda>r. [0..<r]) (map nat (take (length part) radices))))"
  fix i
  assume a: "0 < i \<and> i < tuple_count radices (length part)
          \<and> subset_sum_at part radices i < subset_sum_at part radices (i - 1)
          \<and> (\<forall>j. 0 < j \<and> j < i \<longrightarrow>
                 subset_sum_at part radices (j - 1) \<le> subset_sum_at part radices j)"
  have ne: "part \<noteq> []"
  proof
    assume "part = []"
    with a show False by (auto simp: tuple_count_def)
  qed
  have tot: "\<forall>j<length ?all. total_sum (map build_digit_map part) (rev (?all ! j))
               [0..<length part] = Inr (subset_sum_at part radices j)"
    using verify_product_totals(2) [OF assms] by blast
  from a have "i < tuple_count radices (length part)" by blast
  then have il: "i < length ?all" by (simp only: length_product_tuples [OF assms(1)])
  from a il have i: "0 < i" "i < length ?all"
      "subset_sum_at part radices i < subset_sum_at part radices (i - 1)"
    by blast+
  from a have m: "\<forall>j. 0 < j \<and> j < i \<longrightarrow>
                 subset_sum_at part radices (j - 1) \<le> subset_sum_at part radices j"
    by blast
  have "verify_loop (map build_digit_map part) (length part) 0 None (drop 0 ?all)
          = Inr (False, Some \<lparr>at_index = i, digits = rev (?all ! i),
                               sum_val = subset_sum_at part radices i,
                               prev_sum = subset_sum_at part radices (i - 1)\<rparr>)"
    by (rule verify_loop_fail [OF tot i m]) simp_all
  with verify_product_totals(1) [OF assms i(2)]
  show "verify part radices
          = Inr (False, Some \<lparr>at_index = i, digits = digit_tuple_at radices (length part) i,
                               sum_val = subset_sum_at part radices i,
                               prev_sum = subset_sum_at part radices (i - 1)\<rparr>)"
    by (simp only: verify_unfold [OF assms(1) ne])
qed

theorem verify_reports_first_violation_witness:
  "length [[1], [2, 2 :: int]] \<le> length [2, 4 :: int]
   \<and> [2, 4 :: int] ! 0 \<le> 2 ^ length ([[1], [2, 2 :: int]] ! 0)
   \<and> [2, 4 :: int] ! 1 \<le> 2 ^ length ([[1], [2, 2 :: int]] ! 1)
   \<and> verify [[1], [2, 2]] [2, 4]
       = Inr (False, Some \<lparr>at_index = 4, digits = [0, 2], sum_val = 2, prev_sum = 3\<rparr>)"
proof -
  have h1: "length [[1], [2, 2 :: int]] \<le> length [2, 4 :: int]" by simp
  have h2: "\<forall>g<length [[1], [2, 2 :: int]]. [2, 4 :: int] ! g \<le> 2 ^ length ([[1], [2, 2 :: int]] ! g)"
    by (simp add: less_Suc_eq numeral_2_eq_2)
  have c: "tuple_count [2, 4] (length [[1], [2, 2 :: int]]) = 8" by code_simp
  have v: "map (subset_sum_at [[1], [2, 2]] [2, 4]) [0..<5] = [0, 1, 2, 3, 2]" by code_simp
  have d: "digit_tuple_at [2, 4] (length [[1], [2, 2 :: int]]) 4 = [0, 2]" by code_simp
  have s: "\<And>j. j < 5 \<Longrightarrow> subset_sum_at [[1], [2, 2]] [2, 4] j = [0, 1, 2, 3, 2] ! j"
  proof -
    fix j :: nat assume "j < 5"
    then have "map (subset_sum_at [[1], [2, 2]] [2, 4]) [0..<5] ! j
        = subset_sum_at [[1], [2, 2]] [2, 4] j"
      by (simp only: nth_map_upt diff_zero add_0)
    with v show "subset_sum_at [[1], [2, 2]] [2, 4] j = [0, 1, 2, 3, 2] ! j" by simp
  qed
  have p: "0 < (4::nat) \<and> 4 < tuple_count [2, 4] (length [[1], [2, 2 :: int]])
          \<and> subset_sum_at [[1], [2, 2]] [2, 4] 4 < subset_sum_at [[1], [2, 2]] [2, 4] (4 - 1)
          \<and> (\<forall>j. 0 < j \<and> j < 4 \<longrightarrow>
                 subset_sum_at [[1], [2, 2]] [2, 4] (j - 1) \<le> subset_sum_at [[1], [2, 2]] [2, 4] j)"
  proof (intro conjI allI impI)
    show "0 < (4::nat)" by simp
    show "4 < tuple_count [2, 4] (length [[1], [2, 2 :: int]])" by (simp only: c)
    show "subset_sum_at [[1], [2, 2]] [2, 4] 4 < subset_sum_at [[1], [2, 2]] [2, 4] (4 - 1)"
      by (simp add: s)
    fix j :: nat assume "0 < j \<and> j < 4"
    then have "j = 1 \<or> j = 2 \<or> j = 3" by arith
    then show "subset_sum_at [[1], [2, 2]] [2, 4] (j - 1) \<le> subset_sum_at [[1], [2, 2]] [2, 4] j"
      by (auto simp: s)
  qed
  from verify_reports_first_violation [OF h1 h2] p
  have "verify [[1], [2, 2]] [2, 4]
      = Inr (False, Some \<lparr>at_index = 4, digits = digit_tuple_at [2, 4] (length [[1], [2, 2 :: int]]) 4,
                           sum_val = subset_sum_at [[1], [2, 2]] [2, 4] 4,
                           prev_sum = subset_sum_at [[1], [2, 2]] [2, 4] (4 - 1)\<rparr>)"
    by blast
  then have "verify [[1], [2, 2]] [2, 4]
      = Inr (False, Some \<lparr>at_index = 4, digits = [0, 2],
                           sum_val = subset_sum_at [[1], [2, 2]] [2, 4] 4,
                           prev_sum = subset_sum_at [[1], [2, 2]] [2, 4] (4 - 1)\<rparr>)"
    by (simp only: d)
  then have "verify [[1], [2, 2]] [2, 4]
       = Inr (False, Some \<lparr>at_index = 4, digits = [0, 2], sum_val = 2, prev_sum = 3\<rparr>)"
    by (simp add: s)
  with h1 show ?thesis by simp
qed

text \<open>
  Claim C10: when \<open>radices[g] = 2 ^ len(partition[g])\<close> for every group, every digit map
  has exactly \<open>2 ^ len(partition[g])\<close> entries, every digit drawn from
  \<open>range(radices[g])\<close> is a valid position in it, and \<open>verify\<close> returns a pair of a
  boolean and an optional diagnostic, never an \<open>IndexError\<close>.
\<close>

theorem verify_total_on_partitioner_radices:
  assumes "length radices = length part"
      and "\<forall>g<length part. radices ! g = 2 ^ length (part ! g)"
  shows "(\<forall>g<length part.
            length (build_digit_map (part ! g)) = 2 ^ length (part ! g)
          \<and> (\<forall>d\<in>set (range_py (radices ! g)). d < length (build_digit_map (part ! g))))
       \<and> (\<exists>ok diag. verify part radices = Inr (ok, diag))"
proof (intro conjI allI impI ballI)
  fix g assume "g < length part"
  show "length (build_digit_map (part ! g)) = 2 ^ length (part ! g)"
    by (rule length_build_digit_map)
next
  fix g d assume g: "g < length part" and d: "d \<in> set (range_py (radices ! g))"
  from assms(2) g have "radices ! g = 2 ^ length (part ! g)" by simp
  with d have "d < 2 ^ length (part ! g)" by (simp add: range_py_def nat_power_eq)
  then show "d < length (build_digit_map (part ! g))" by (simp add: length_build_digit_map)
next
  let ?all = "product_py (rev (map (\<lambda>r. [0..<r]) (map nat (take (length part) radices))))"
  from assms(1) have le: "length part \<le> length radices" by simp
  from assms(2) have b: "\<forall>g<length part. radices ! g \<le> 2 ^ length (part ! g)" by simp
  show "\<exists>ok diag. verify part radices = Inr (ok, diag)"
  proof (cases "part = []")
    case True
    then show ?thesis by (auto simp: verify_def)
  next
    case False
    have "\<forall>t\<in>set ?all. \<exists>s. total_sum (map build_digit_map part) (rev t) [0..<length part] = Inr s"
    proof
      fix t assume "t \<in> set ?all"
      then obtain j where j: "j < length ?all" "?all ! j = t" by (auto simp: in_set_conv_nth)
      from verify_product_totals(2) [OF le b j(1)] j(2)
      show "\<exists>s. total_sum (map build_digit_map part) (rev t) [0..<length part] = Inr s" by auto
    qed
    from verify_loop_no_error [OF this]
    show ?thesis by (simp only: verify_unfold [OF le False] drop_0)
  qed
qed


theorem verify_total_on_partitioner_radices_witness:
  "length [2, 4 :: int] = length [[1], [2, 2 :: int]]
   \<and> [2, 4 :: int] ! 0 = 2 ^ length ([[1], [2, 2 :: int]] ! 0)
   \<and> [2, 4 :: int] ! 1 = 2 ^ length ([[1], [2, 2 :: int]] ! 1)
   \<and> (\<exists>ok diag. verify [[1], [2, 2]] [2, 4] = Inr (ok, diag))"
proof -
  have h1: "length [2, 4 :: int] = length [[1], [2, 2 :: int]]" by simp
  have h2: "\<forall>g<length [[1], [2, 2 :: int]]. [2, 4 :: int] ! g = 2 ^ length ([[1], [2, 2 :: int]] ! g)"
    by (simp add: less_Suc_eq numeral_2_eq_2)
  from verify_total_on_partitioner_radices [OF h1 h2] show ?thesis by simp
qed

end
